theory Spec2Isabelle
  imports Main "HOL-Library.Word"
begin

unbundle bit_operations_syntax

section \<open>Data model of \<open>src/main.c\<close>\<close>

text \<open>
  A connection (\<open>struct bt_conn *\<close>) is an opaque handle. The calls the program makes
  into the Bluetooth stack and the kernel are recorded, in order, in a trace; \<open>printk\<close>
  output is not modelled. A notification is recorded with the offset of its data pointer
  from the start of the buffer handed to \<open>send_data\<close> and with its length: the
  fragment is a view \<open>(offset, length)\<close> into that buffer.
\<close>

type_synonym conn = nat

datatype adv_opt = BT_LE_ADV_OPT_CONNECTABLE | BT_LE_ADV_OPT_ONE_TIME

datatype action =
    Gatt_notify conn nat nat
  | Conn_disconnect conn "8 word"
  | Conn_ref conn
  | Conn_unref conn
  | Le_adv_start "adv_opt list"
  | Msleep nat

datatype error = Buffer_overflow

text \<open>The file-scope variables of \<open>main.c\<close> (lines 36 to 44), and the trace.\<close>

record state =
  data_length_req :: bool
  test_ready :: bool
  m_notif_enabled :: bool
  m_notif_send :: bool
  m_mtu :: "16 word"
  default_conn :: "conn option"
  m_msg_buffer :: "8 word list"
  m_msg_idx_cnt :: "32 word"
  trace :: "action list"

text \<open>
  \<open>CONFIG_BT_L2CAP_TX_MTU\<close> comes from the build configuration, so it is a parameter
  \<open>cfg\<close> of everything that uses it. \<open>MTU_OVERHEAD\<close> is 3 (line 26). The message
  buffer has \<open>cfg - 3\<close> bytes (line 43); its capacity is the length of the list.
\<close>

definition MTU_OVERHEAD :: nat where
  "MTU_OVERHEAD = 3"

definition init_state :: "nat \<Rightarrow> state" where
  "init_state cfg =
     \<lparr> data_length_req = False, test_ready = False,
       m_notif_enabled = False, m_notif_send = False,
       m_mtu = 23, default_conn = None,
       m_msg_buffer = replicate (cfg - MTU_OVERHEAD) 0,
       m_msg_idx_cnt = 0, trace = [] \<rparr>"

text \<open>Error numbers and HCI codes of the Zephyr headers that the program names.\<close>

definition ENODEV :: int where
  "ENODEV = 19"

definition BT_HCI_ERR_UNKNOWN_CONN_ID :: "8 word" where
  "BT_HCI_ERR_UNKNOWN_CONN_ID = 0x02"

definition BT_HCI_ERR_REMOTE_USER_TERM_CONN :: "8 word" where
  "BT_HCI_ERR_REMOTE_USER_TERM_CONN = 0x13"

definition BT_GATT_CCC_NOTIFY :: "16 word" where
  "BT_GATT_CCC_NOTIFY = 0x0001"

section \<open>Control writes and subscription (lines 89 to 109)\<close>

text \<open>
  \<open>write_cmd_cb\<close> reads \<open>dptr[0]\<close> and \<open>dptr[1]\<close> only behind \<open>len >= 2\<close>; the
  connection, attribute, offset and flags arguments are unused. It returns \<open>len\<close>.
\<close>

definition write_cmd_cb :: "state \<Rightarrow> 8 word list \<Rightarrow> 16 word \<Rightarrow> state \<times> int" where
  "write_cmd_cb s dptr len =
     ((if 2 \<le> len then
         (if dptr ! 0 = 0x01 then s\<lparr>m_notif_send := (dptr ! 1 = 0x01)\<rparr> else s)
       else s),
      uint len)"

definition notif_ccc_cb :: "state \<Rightarrow> 16 word \<Rightarrow> state" where
  "notif_ccc_cb s v =
     s\<lparr>m_notif_enabled := (if v AND BT_GATT_CCC_NOTIFY \<noteq> 0 then True else False)\<rparr>"

section \<open>Fragmenting sender (lines 112 to 140)\<close>

text \<open>
  The result of the \<open>k\<close>-th call of \<open>bt_gatt_notify\<close> within one \<open>send_data\<close> is
  \<open>chan k\<close>: 0 when the stack accepts the notification, an error code otherwise.
  \<open>mtu - MTU_OVERHEAD\<close> is computed in \<open>int\<close> (both operands are promoted), the
  assignments to \<open>frag_len\<close> and \<open>remaining_len\<close> truncate to 16 bits.

  The \<open>while\<close> loop need not terminate (with \<open>mtu = 3\<close> and a channel that accepts
  everything, \<open>remaining_len\<close> never changes), so it is a partial function: \<open>None\<close>
  is a loop that runs forever.
\<close>

partial_function (option) send_loop ::
  "(nat \<Rightarrow> int) \<Rightarrow> conn \<Rightarrow> 16 word \<Rightarrow> nat \<Rightarrow> 16 word \<Rightarrow> 16 word \<Rightarrow> int \<Rightarrow> nat \<Rightarrow> action list
     \<Rightarrow> (int \<times> action list) option" where
  "send_loop chan c mtu frag frag_len remaining_len err k tr =
     (if err = 0 \<and> 0 < remaining_len then
        (let frag' = frag + unat frag_len;
             last_one = (uint remaining_len \<le> uint mtu - int MTU_OVERHEAD);
             frag_len' = (if last_one then remaining_len else frag_len);
             remaining_len' = (if last_one then 0 else remaining_len - frag_len)
         in send_loop chan c mtu frag' frag_len' remaining_len' (chan k) (Suc k)
              (tr @ [Gatt_notify c frag' (unat frag_len')]))
      else Some (err, tr))"

declare send_loop.simps [code]

definition send_data :: "(nat \<Rightarrow> int) \<Rightarrow> state \<Rightarrow> 16 word \<Rightarrow> (int \<times> state) option" where
  "send_data chan s len =
     (case default_conn s of
        None \<Rightarrow> Some (- ENODEV, s)
      | Some c \<Rightarrow>
          (let mtu = m_mtu s in
           if uint len \<le> uint mtu - int MTU_OVERHEAD then
             Some (chan 0, s\<lparr>trace := trace s @ [Gatt_notify c 0 (unat len)]\<rparr>)
           else
             (let frag_len = (word_of_int (uint mtu - int MTU_OVERHEAD) :: 16 word);
                  remaining_len = len - frag_len
              in case send_loop chan c mtu 0 frag_len remaining_len (chan 0) 1
                        (trace s @ [Gatt_notify c 0 (unat frag_len)]) of
                   None \<Rightarrow> None
                 | Some (err, tr) \<Rightarrow> Some (err, s\<lparr>trace := tr\<rparr>))))"

section \<open>Connection callbacks (lines 142 to 215) and MTU update (lines 261 to 268)\<close>

text \<open>
  \<open>bt_conn_get_info\<close> is the stack's: its return value is the argument \<open>info_err\<close>
  of the two handlers. Both branches under \<open>if (hci_err)\<close> only differ in what
  they print. \<open>bt_conn_ref\<close> hands back the connection it is given.
\<close>

definition connected :: "state \<Rightarrow> conn \<Rightarrow> 8 word \<Rightarrow> int \<Rightarrow> state" where
  "connected s cn hci_err info_err =
     (if hci_err \<noteq> 0 then
        (if hci_err = BT_HCI_ERR_UNKNOWN_CONN_ID then s else s)
      else
        (case default_conn s of
           Some d \<Rightarrow>
             s\<lparr>trace := trace s @ [Conn_disconnect cn BT_HCI_ERR_REMOTE_USER_TERM_CONN]\<rparr>
         | None \<Rightarrow>
             (let s1 = s\<lparr>default_conn := Some cn, trace := trace s @ [Conn_ref cn]\<rparr>
              in if info_err \<noteq> 0 then s1 else s1\<lparr>m_mtu := 23\<rparr>)))"

definition adv_start :: "state \<Rightarrow> state" where
  "adv_start s =
     s\<lparr>trace := trace s @ [Le_adv_start [BT_LE_ADV_OPT_CONNECTABLE, BT_LE_ADV_OPT_ONE_TIME]]\<rparr>"

definition disconnected :: "state \<Rightarrow> conn \<Rightarrow> 8 word \<Rightarrow> int \<Rightarrow> state" where
  "disconnected s cn reason info_err =
     (let s1 = s\<lparr>test_ready := False\<rparr>;
          s2 = (case default_conn s1 of
                  Some d \<Rightarrow> s1\<lparr>default_conn := None, trace := trace s1 @ [Conn_unref d]\<rparr>
                | None \<Rightarrow> s1)
      in if info_err \<noteq> 0 then s2 else adv_start s2)"

definition mtu_updated :: "nat \<Rightarrow> state \<Rightarrow> conn \<Rightarrow> 16 word \<Rightarrow> 16 word \<Rightarrow> state" where
  "mtu_updated cfg s cn tx rx =
     (let s1 = s\<lparr>m_mtu := tx\<rparr>
      in if cfg \<le> unat (m_mtu s1) then s1\<lparr>m_mtu := of_nat cfg\<rparr> else s1)"

text \<open>\<open>main\<close> (lines 304 to 323), with \<open>bt_enable\<close> succeeding: advertising starts.\<close>

definition main_boot :: "nat \<Rightarrow> state" where
  "main_boot cfg = adv_start (init_state cfg)"

section \<open>Pattern generator and pump (lines 276 to 295)\<close>

text \<open>
  The \<open>for\<close> loop of lines 283 to 286. A write at an index outside the buffer is
  undefined behaviour in C; here it is the error \<open>Buffer_overflow\<close>, and the loop
  stops there. The index \<open>i\<close> is an \<open>int\<close> compared with a \<open>size_t\<close>; it never
  passes the capacity of the buffer, so it is a \<open>nat\<close> here. The counter is a
  \<open>uint32_t\<close>: \<open>+ 1\<close> wraps at \<open>2 ^ 32\<close>.
\<close>

function fill_buffer ::
  "nat \<Rightarrow> nat \<Rightarrow> 8 word list \<Rightarrow> 32 word \<Rightarrow> error + (8 word list \<times> 32 word)" where
  "fill_buffer len i buf cnt =
     (if i < len then
        (let shift = (if cnt AND 1 \<noteq> 0 then 9 else 1 :: nat)
         in if i < length buf then
              fill_buffer len (Suc i) (buf[i := ucast (drop_bit shift cnt AND 0xFF)]) (cnt + 1)
            else Inl Buffer_overflow)
      else Inr (buf, cnt))"
  by pat_completeness auto
termination
  by (relation "measure (\<lambda>(len, i, buf, cnt). len - i)") auto

declare fill_buffer.simps [simp del]

text \<open>
  Lines 287 to 289. \<open>UINT16_MAX << 1\<close> is \<open>65535 << 1\<close>, that is 131070.
\<close>

definition wrap_counter :: "32 word \<Rightarrow> 32 word" where
  "wrap_counter cnt =
     (if push_bit 1 65535 < cnt then cnt mod push_bit 1 65535 else cnt)"

text \<open>Buffer generation, lines 283 to 289: the loop, then the reduction of the counter.\<close>

definition next_buffer ::
  "nat \<Rightarrow> 8 word list \<Rightarrow> 32 word \<Rightarrow> error + (8 word list \<times> 32 word)" where
  "next_buffer len buf cnt =
     (case fill_buffer len 0 buf cnt of
        Inl e \<Rightarrow> Inl e
      | Inr (buf', cnt') \<Rightarrow> Inr (buf', wrap_counter cnt'))"

text \<open>
  One iteration of the \<open>while (1)\<close> of \<open>notify_thread\<close>. \<open>len\<close> is a \<open>size_t\<close>
  (32 bits on the targets of this firmware) holding the \<open>int\<close> value \<open>m_mtu - 3\<close>;
  \<open>send_data\<close> takes it as a \<open>uint16_t\<close>, and its result is dropped.
\<close>

definition notify_thread_iter :: "(nat \<Rightarrow> int) \<Rightarrow> state \<Rightarrow> (error + state) option" where
  "notify_thread_iter chan s =
     (if m_notif_enabled s \<and> m_notif_send s then
        (let len = (word_of_int (uint (m_mtu s) - int MTU_OVERHEAD) :: 32 word)
         in case next_buffer (unat len) (m_msg_buffer s) (m_msg_idx_cnt s) of
              Inl e \<Rightarrow> Some (Inl e)
            | Inr (buf, cnt) \<Rightarrow>
                (case send_data chan (s\<lparr>m_msg_buffer := buf, m_msg_idx_cnt := cnt\<rparr>) (ucast len) of
                   None \<Rightarrow> None
                 | Some (err, s') \<Rightarrow> Some (Inr s')))
      else Some (Inr (s\<lparr>trace := trace s @ [Msleep 100]\<rparr>)))"

section \<open>Events and reachable states\<close>

text \<open>
  The callbacks the stack may invoke, and one iteration of the pump. A run stops
  (\<open>None\<close>) when a pump iteration writes outside the buffer or never returns.
\<close>

datatype event =
    Ev_connected conn "8 word" int
  | Ev_disconnected conn "8 word" int
  | Ev_mtu_updated conn "16 word" "16 word"
  | Ev_ccc "16 word"
  | Ev_write "8 word list" "16 word"
  | Ev_pump "nat \<Rightarrow> int"

fun step :: "nat \<Rightarrow> state \<Rightarrow> event \<Rightarrow> state option" where
  "step cfg s (Ev_connected cn hci_err info_err) = Some (connected s cn hci_err info_err)"
| "step cfg s (Ev_disconnected cn reason info_err) = Some (disconnected s cn reason info_err)"
| "step cfg s (Ev_mtu_updated cn tx rx) = Some (mtu_updated cfg s cn tx rx)"
| "step cfg s (Ev_ccc v) = Some (notif_ccc_cb s v)"
| "step cfg s (Ev_write dptr len) = Some (fst (write_cmd_cb s dptr len))"
| "step cfg s (Ev_pump chan) =
     (case notify_thread_iter chan s of
        Some (Inr s') \<Rightarrow> Some s'
      | Some (Inl e) \<Rightarrow> None
      | None \<Rightarrow> None)"

fun exec :: "nat \<Rightarrow> state \<Rightarrow> event list \<Rightarrow> state option" where
  "exec cfg s [] = Some s"
| "exec cfg s (e # es) = (case step cfg s e of None \<Rightarrow> None | Some s' \<Rightarrow> exec cfg s' es)"

text \<open>
  The Attribute Protocol never negotiates an MTU below 23; \<open>mtu_updated\<close> itself does
  not check its argument. \<open>att_mtu_ok\<close> says that an event respects that minimum.
\<close>

fun att_mtu_ok :: "event \<Rightarrow> bool" where
  "att_mtu_ok (Ev_mtu_updated cn tx rx) = (23 \<le> unat tx)"
| "att_mtu_ok (Ev_connected cn hci_err info_err) = True"
| "att_mtu_ok (Ev_disconnected cn reason info_err) = True"
| "att_mtu_ok (Ev_ccc v) = True"
| "att_mtu_ok (Ev_write dptr len) = True"
| "att_mtu_ok (Ev_pump chan) = True"

definition mtu_inv :: "nat \<Rightarrow> state \<Rightarrow> bool" where
  "mtu_inv cfg s = (23 \<le> unat (m_mtu s) \<and> unat (m_mtu s) \<le> cfg)"

section \<open>Specification of fragmentation\<close>

text \<open>
  What the specification asks of the sender, as functions on views \<open>(offset, length)\<close>:
  \<open>spec_rest off u r\<close> cuts \<open>r\<close> bytes starting at \<open>off\<close> into pieces of \<open>u\<close> bytes,
  the last one possibly shorter; \<open>spec_fragments u L\<close> is one notification of the whole
  buffer when \<open>L \<le> u\<close>, the pieces otherwise. \<open>spec_emit\<close> hands views to the channel
  one after the other until one is refused. \<open>view_bytes\<close> reads a view.
\<close>

function spec_rest :: "nat \<Rightarrow> nat \<Rightarrow> nat \<Rightarrow> (nat \<times> nat) list" where
  "spec_rest off u r =
     (if r = 0 \<or> u = 0 then []
      else if r \<le> u then [(off, r)]
      else (off, u) # spec_rest (off + u) u (r - u))"
  by pat_completeness auto
termination
  by (relation "measure (\<lambda>(off, u, r). r)") auto

declare spec_rest.simps [simp del]

definition spec_fragments :: "nat \<Rightarrow> nat \<Rightarrow> (nat \<times> nat) list" where
  "spec_fragments u L = (if L \<le> u then [(0, L)] else spec_rest 0 u L)"

fun spec_emit ::
  "(nat \<Rightarrow> int) \<Rightarrow> conn \<Rightarrow> (nat \<times> nat) list \<Rightarrow> int \<Rightarrow> nat \<Rightarrow> action list \<Rightarrow> int \<times> action list" where
  "spec_emit chan c [] err k tr = (err, tr)"
| "spec_emit chan c ((off, n) # fs) err k tr =
     (if err = 0 then spec_emit chan c fs (chan k) (Suc k) (tr @ [Gatt_notify c off n])
      else (err, tr))"

definition view_bytes :: "'a list \<Rightarrow> nat \<times> nat \<Rightarrow> 'a list" where
  "view_bytes data v = take (snd v) (drop (fst v) data)"

definition notify_of :: "conn \<Rightarrow> nat \<times> nat \<Rightarrow> action" where
  "notify_of c v = Gatt_notify c (fst v) (snd v)"

definition ceil_div :: "nat \<Rightarrow> nat \<Rightarrow> nat" where
  "ceil_div L u = (L + u - 1) div u"

text \<open>Two channels: one accepts every notification, one refuses the \<open>m\<close>-th with \<open>e\<close>.\<close>

definition accept_all :: "nat \<Rightarrow> int" where
  "accept_all k = 0"

definition reject_at :: "nat \<Rightarrow> int \<Rightarrow> nat \<Rightarrow> int" where
  "reject_at m e k = (if k = m then e else 0)"

text \<open>
  The state after boot, a first connection \<open>1\<close> whose information query succeeds, and an
  MTU exchange that reports \<open>tx\<close> in both directions.
\<close>

definition link_up :: "nat \<Rightarrow> 16 word \<Rightarrow> state" where
  "link_up cfg tx = mtu_updated cfg (connected (main_boot cfg) 1 0 0) 1 tx tx"

section \<open>Specification of the pattern\<close>

text \<open>
  The byte the generator emits at counter value \<open>cnt\<close>, and the \<open>n\<close> bytes it emits
  from \<open>cnt\<close> on. \<open>generated\<close> is what one buffer generation of \<open>len\<close> bytes leaves
  in the first \<open>len\<close> places of the buffer, with the counter after it; \<open>two_calls\<close>
  is what two generations in a row produce, the second one writing over the first in the
  same buffer, as the pump does.
\<close>

definition pattern_byte :: "32 word \<Rightarrow> 8 word" where
  "pattern_byte cnt = ucast (drop_bit (if cnt AND 1 \<noteq> 0 then 9 else 1 :: nat) cnt AND 0xFF)"

definition pattern :: "32 word \<Rightarrow> nat \<Rightarrow> 8 word list" where
  "pattern cnt n = map (\<lambda>k. pattern_byte (cnt + of_nat k)) [0 ..< n]"

definition generated :: "nat \<Rightarrow> 8 word list \<Rightarrow> 32 word \<Rightarrow> (8 word list \<times> 32 word) option" where
  "generated len buf cnt =
     (case next_buffer len buf cnt of
        Inl e \<Rightarrow> None
      | Inr (buf', cnt') \<Rightarrow> Some (take len buf', cnt'))"

definition two_calls ::
  "nat \<Rightarrow> nat \<Rightarrow> 8 word list \<Rightarrow> 32 word \<Rightarrow> (8 word list \<times> 32 word) option" where
  "two_calls a b buf cnt =
     (case next_buffer a buf cnt of
        Inl e \<Rightarrow> None
      | Inr (buf1, cnt1) \<Rightarrow>
          (case next_buffer b buf1 cnt1 of
             Inl e \<Rightarrow> None
           | Inr (buf2, cnt2) \<Rightarrow> Some (take a buf1 @ take b buf2, cnt2)))"

section \<open>The fragmenting sender refines the specification\<close>

lemma spec_emit_err: "err \<noteq> 0 \<Longrightarrow> spec_emit chan c fs err k tr = (err, tr)"
  by (cases fs) auto

lemma spec_rest_step:
  "0 < u \<Longrightarrow> u < r \<Longrightarrow> spec_rest off u r = (off, u) # spec_rest (off + u) u (r - u)"
  by (subst spec_rest.simps) simp

lemma spec_rest_last:
  "0 < u \<Longrightarrow> 0 < r \<Longrightarrow> r \<le> u \<Longrightarrow> spec_rest off u r = [(off, r)]"
  by (subst spec_rest.simps) simp

lemma spec_rest_zero: "spec_rest off u 0 = []"
  by (subst spec_rest.simps) simp

lemma usable_int:
  fixes mtu :: "16 word"
  assumes "3 < unat mtu"
  shows "uint mtu - int MTU_OVERHEAD = int (unat mtu - 3)"
  using assms by (simp add: MTU_OVERHEAD_def of_nat_diff)

lemma usable_word:
  fixes mtu :: "16 word"
  assumes "3 < unat mtu"
  shows "unat (word_of_int (uint mtu - int MTU_OVERHEAD) :: 16 word) = unat mtu - 3"
proof -
  have "unat (word_of_nat (unat mtu - 3) :: 16 word) = unat mtu - 3"
    by (rule le_unat_uoi [of _ mtu]) simp
  then show ?thesis
    unfolding usable_int [OF assms] by (simp only: of_int_of_nat_eq)
qed

lemma send_loop_refines:
  fixes mtu :: "16 word"
  assumes mtu: "3 < unat mtu"
  shows "unat frag_len = unat mtu - 3 \<Longrightarrow>
         send_loop chan c mtu frag frag_len r err k tr =
           Some (spec_emit chan c (spec_rest (frag + (unat mtu - 3)) (unat mtu - 3) (unat r)) err k tr)"
proof (induction "unat r" arbitrary: r frag err k tr rule: less_induct)
  case less
  let ?u = "unat mtu - 3"
  have u: "0 < ?u" using mtu by simp
  have cmp: "(uint r \<le> uint mtu - int MTU_OVERHEAD) = (unat r \<le> ?u)"
    unfolding usable_int [OF mtu] by (simp only: uint_nat of_nat_le_iff)
  show ?case
  proof (cases "err = 0 \<and> 0 < r")
    case False
    then consider "err \<noteq> 0" | "err = 0" "r = 0" by (cases "err = 0") (auto simp: word_greater_zero_iff)
    then show ?thesis
    proof cases
      case 1
      then show ?thesis
        by (subst send_loop.simps) (simp add: spec_emit_err)
    next
      case 2
      then show ?thesis
        by (subst send_loop.simps) (simp add: spec_rest_zero)
    qed
  next
    case True
    then have e: "err = 0" and r: "0 < r" by auto
    have rn: "0 < unat r" using r by (simp add: word_less_nat_alt)
    show ?thesis
    proof (cases "unat r \<le> ?u")
      case True
      have "send_loop chan c mtu frag frag_len r err k tr =
              send_loop chan c mtu (frag + ?u) r 0 (chan k) (Suc k)
                (tr @ [Gatt_notify c (frag + ?u) (unat r)])"
        using e r True less.prems
        by (subst send_loop.simps) (simp add: cmp Let_def)
      also have "\<dots> = Some (chan k, tr @ [Gatt_notify c (frag + ?u) (unat r)])"
        by (subst send_loop.simps) simp
      finally show ?thesis
        using e True rn u by (simp add: spec_rest_last)
    next
      case False
      then have gt: "?u < unat r" by simp
      have sub: "unat (r - frag_len) = unat r - ?u"
        using gt less.prems by (simp add: unat_sub word_le_nat_alt)
      have "send_loop chan c mtu frag frag_len r err k tr =
              send_loop chan c mtu (frag + ?u) frag_len (r - frag_len) (chan k) (Suc k)
                (tr @ [Gatt_notify c (frag + ?u) ?u])"
        using e r False less.prems
        by (subst send_loop.simps) (simp add: cmp Let_def)
      also have "\<dots> = Some (spec_emit chan c
              (spec_rest (frag + ?u + ?u) ?u (unat (r - frag_len))) (chan k) (Suc k)
              (tr @ [Gatt_notify c (frag + ?u) ?u]))"
        using less.hyps [of "r - frag_len"] sub gt u less.prems by simp
      finally show ?thesis
        using e gt u sub by (simp add: spec_rest_step)
    qed
  qed
qed

lemma send_data_refines:
  assumes conn: "default_conn s = Some c" and mtu: "3 < unat (m_mtu s)"
  shows "send_data chan s len =
           Some (fst (spec_emit chan c (spec_fragments (unat (m_mtu s) - 3) (unat len)) 0 0 (trace s)),
                 s\<lparr>trace := snd (spec_emit chan c (spec_fragments (unat (m_mtu s) - 3) (unat len)) 0 0 (trace s))\<rparr>)"
proof -
  let ?u = "unat (m_mtu s) - 3"
  have u: "0 < ?u" using mtu by simp
  have cmp: "(uint len \<le> uint (m_mtu s) - int MTU_OVERHEAD) = (unat len \<le> ?u)"
    unfolding usable_int [OF mtu] by (simp only: uint_nat of_nat_le_iff)
  show ?thesis
  proof (cases "unat len \<le> ?u")
    case True
    then show ?thesis
      by (simp add: send_data_def conn cmp spec_fragments_def)
  next
    case False
    define fl :: "16 word" where "fl = word_of_int (uint (m_mtu s) - int MTU_OVERHEAD)"
    have fl: "unat fl = ?u" unfolding fl_def by (rule usable_word [OF mtu])
    have gt: "?u < unat len" using False by simp
    have sub: "unat (len - fl) = unat len - ?u"
      using gt fl by (simp add: unat_sub word_le_nat_alt)
    have loop: "send_loop chan c (m_mtu s) 0 fl (len - fl) (chan 0) 1
                  (trace s @ [Gatt_notify c 0 (unat fl)]) =
                Some (spec_emit chan c (spec_rest (0 + ?u) ?u (unat (len - fl))) (chan 0) 1
                  (trace s @ [Gatt_notify c 0 (unat fl)]))"
      by (rule send_loop_refines [OF mtu fl])
    have frs: "spec_fragments ?u (unat len) = (0, ?u) # spec_rest ?u ?u (unat len - ?u)"
      using gt u by (simp add: spec_fragments_def spec_rest_step)
    have "send_data chan s len =
            (case send_loop chan c (m_mtu s) 0 fl (len - fl) (chan 0) 1
                    (trace s @ [Gatt_notify c 0 (unat fl)]) of
               None \<Rightarrow> None
             | Some (err, tr) \<Rightarrow> Some (err, s\<lparr>trace := tr\<rparr>))"
      using False by (simp add: send_data_def conn cmp Let_def fl_def)
    also have "\<dots> =
            (case spec_emit chan c (spec_rest ?u ?u (unat len - ?u)) (chan 0) 1
                    (trace s @ [Gatt_notify c 0 ?u]) of
               (err, tr) \<Rightarrow> Some (err, s\<lparr>trace := tr\<rparr>))"
      apply (simp only: loop option.case)
      apply (simp only: sub fl)
      apply simp
      done
    also have "\<dots> =
            (case spec_emit chan c (spec_fragments ?u (unat len)) 0 0 (trace s) of
               (err, tr) \<Rightarrow> Some (err, s\<lparr>trace := tr\<rparr>))"
      unfolding frs by simp
    finally show ?thesis
      by (simp add: case_prod_beta)
  qed
qed

lemma spec_emit_accept:
  "\<forall>j < length fs. chan (k + j) = 0 \<Longrightarrow>
   spec_emit chan c fs 0 k tr = (0, tr @ map (notify_of c) fs)"
proof (induction fs arbitrary: k tr)
  case Nil
  then show ?case by simp
next
  case (Cons v fs)
  obtain off n where v: "v = (off, n)" by (cases v)
  have here: "chan k = 0" using Cons.prems by force
  have rest: "\<forall>j < length fs. chan (Suc k + j) = 0"
    using Cons.prems by fastforce
  show ?case
    using Cons.IH [OF rest] here by (simp add: v notify_of_def)
qed

lemma spec_emit_reject:
  "m < length fs \<Longrightarrow> \<forall>j < m. chan (k + j) = 0 \<Longrightarrow> chan (k + m) \<noteq> 0 \<Longrightarrow>
   spec_emit chan c fs 0 k tr = (chan (k + m), tr @ map (notify_of c) (take (Suc m) fs))"
proof (induction fs arbitrary: m k tr)
  case Nil
  then show ?case by simp
next
  case (Cons v fs)
  obtain off n where v: "v = (off, n)" by (cases v)
  show ?case
  proof (cases m)
    case 0
    then show ?thesis
      using Cons.prems by (simp add: v notify_of_def spec_emit_err)
  next
    case (Suc m')
    have here: "chan k = 0" using Cons.prems(2) Suc by force
    have len: "m' < length fs" using Cons.prems(1) Suc by simp
    have before: "\<forall>j < m'. chan (Suc k + j) = 0"
      using Cons.prems(2) Suc by fastforce
    have at: "chan (Suc k + m') \<noteq> 0" using Cons.prems(3) Suc by simp
    show ?thesis
      using Cons.IH [OF len before at] here Suc by (simp add: v notify_of_def)
  qed
qed

lemma ceil_div_step: "0 < u \<Longrightarrow> u < r \<Longrightarrow> ceil_div r u = Suc (ceil_div (r - u) u)"
proof -
  assume u: "0 < u" and r: "u < r"
  have "r + u - 1 = (r - u + u - 1) + u" using u r by simp
  then have "(r + u - 1) div u = (r - u + u - 1) div u + 1"
    using u by (metis div_add_self2 less_numeral_extra(3))
  then show ?thesis by (simp add: ceil_div_def)
qed

lemma ceil_div_one: "0 < u \<Longrightarrow> 0 < r \<Longrightarrow> r \<le> u \<Longrightarrow> ceil_div r u = 1"
proof -
  assume u: "0 < u" and r: "0 < r" "r \<le> u"
  have "r + u - 1 = (r - 1) + u" using r by simp
  moreover have "(r - 1) div u = 0" using r u by simp
  ultimately have "(r + u - 1) div u = 1"
    using u by (metis add.left_neutral div_add_self2 less_numeral_extra(3))
  then show ?thesis by (simp add: ceil_div_def)
qed

lemma length_spec_rest: "0 < u \<Longrightarrow> length (spec_rest off u r) = ceil_div r u"
proof (induction off u r rule: spec_rest.induct)
  case (1 off u r)
  consider "r = 0" | "0 < r" "r \<le> u" | "u < r" by linarith
  then show ?case
  proof cases
    case 1
    then show ?thesis using "1.prems" by (simp add: spec_rest_zero ceil_div_def)
  next
    case 2
    then show ?thesis using "1.prems" by (simp add: spec_rest_last ceil_div_one)
  next
    case 3
    then show ?thesis
      using "1.IH" "1.prems" by (simp add: spec_rest_step ceil_div_step)
  qed
qed

lemma spec_rest_sizes: "v \<in> set (spec_rest off u r) \<Longrightarrow> 0 < snd v \<and> snd v \<le> u \<and> off \<le> fst v"
proof (induction off u r rule: spec_rest.induct)
  case (1 off u r)
  consider "r = 0 \<or> u = 0" | "0 < u" "0 < r" "r \<le> u" | "0 < u" "u < r" by linarith
  then show ?case
  proof cases
    case 1
    then show ?thesis using "1.prems" by (subst (asm) spec_rest.simps) auto
  next
    case 2
    then show ?thesis using "1.prems" by (simp add: spec_rest_last)
  next
    case 3
    have eq: "spec_rest off u r = (off, u) # spec_rest (off + u) u (r - u)"
      using 3 by (rule spec_rest_step)
    from "1.prems" have "v = (off, u) \<or> v \<in> set (spec_rest (off + u) u (r - u))"
      unfolding eq by simp
    then show ?thesis
    proof
      assume "v = (off, u)"
      then show ?thesis using 3 by simp
    next
      assume "v \<in> set (spec_rest (off + u) u (r - u))"
      then have "0 < snd v \<and> snd v \<le> u \<and> off + u \<le> fst v"
        using "1.IH" 3 by simp
      then show ?thesis by simp
    qed
  qed
qed

lemma spec_rest_ordered: "sorted_wrt (<) (map fst (spec_rest off u r))"
proof (induction off u r rule: spec_rest.induct)
  case (1 off u r)
  consider "r = 0 \<or> u = 0" | "0 < u" "0 < r" "r \<le> u" | "0 < u" "u < r" by linarith
  then show ?case
  proof cases
    case 1
    then have "spec_rest off u r = []" by (subst spec_rest.simps) simp
    then show ?thesis by simp
  next
    case 2
    then show ?thesis by (simp add: spec_rest_last)
  next
    case 3
    have eq: "spec_rest off u r = (off, u) # spec_rest (off + u) u (r - u)"
      using 3 by (rule spec_rest_step)
    have above: "off < fst v" if "v \<in> set (spec_rest (off + u) u (r - u))" for v
      using spec_rest_sizes [OF that] 3 by simp
    have "sorted_wrt (<) (map fst (spec_rest (off + u) u (r - u)))"
      using "1.IH" 3 by simp
    then show ?thesis
      unfolding eq using above by auto
  qed
qed

lemma spec_rest_concat:
  "0 < u \<Longrightarrow> concat (map (view_bytes data) (spec_rest off u r)) = take r (drop off data)"
proof (induction off u r rule: spec_rest.induct)
  case (1 off u r)
  consider "r = 0" | "0 < r" "r \<le> u" | "u < r" by linarith
  then show ?case
  proof cases
    case 1
    then show ?thesis by (simp add: spec_rest_zero)
  next
    case 2
    then show ?thesis using "1.prems" by (simp add: spec_rest_last view_bytes_def)
  next
    case 3
    have "take r (drop off data) = take (u + (r - u)) (drop off data)" using 3 by simp
    also have "\<dots> = take u (drop off data) @ take (r - u) (drop (off + u) data)"
      by (simp only: take_add drop_drop add.commute)
    finally show ?thesis
      using "1.IH" "1.prems" 3 by (simp add: spec_rest_step view_bytes_def)
  qed
qed

lemma spec_fragments_length:
  "0 < u \<Longrightarrow> length (spec_fragments u L) = max 1 (ceil_div L u)"
proof -
  assume u: "0 < u"
  show ?thesis
  proof (cases "L \<le> u")
    case True
    have "ceil_div L u \<le> 1"
    proof (cases "L = 0")
      case True
      then show ?thesis using u by (simp add: ceil_div_def)
    next
      case False
      then show ?thesis using u True by (simp add: ceil_div_one)
    qed
    then show ?thesis using True by (simp add: spec_fragments_def)
  next
    case False
    then have "0 < ceil_div L u" using u by (simp add: ceil_div_step)
    then show ?thesis using False u by (simp add: spec_fragments_def length_spec_rest)
  qed
qed

lemma spec_fragments_sizes: "v \<in> set (spec_fragments u L) \<Longrightarrow> snd v \<le> u"
  using spec_rest_sizes [of v 0 u L] by (auto simp: spec_fragments_def split: if_splits)

lemma spec_fragments_ordered: "sorted_wrt (<) (map fst (spec_fragments u L))"
  by (simp add: spec_fragments_def spec_rest_ordered)

lemma spec_fragments_concat:
  "0 < u \<Longrightarrow> length data = L \<Longrightarrow> concat (map (view_bytes data) (spec_fragments u L)) = data"
  by (simp add: spec_fragments_def spec_rest_concat view_bytes_def)

section \<open>Sample states\<close>

lemma link_up_conn: "default_conn (link_up cfg tx) = Some 1"
  by (simp add: link_up_def mtu_updated_def connected_def main_boot_def adv_start_def
        init_state_def Let_def)

lemma link_up_trace:
  "trace (link_up cfg tx) =
     [Le_adv_start [BT_LE_ADV_OPT_CONNECTABLE, BT_LE_ADV_OPT_ONE_TIME], Conn_ref 1]"
  by (simp add: link_up_def mtu_updated_def connected_def main_boot_def adv_start_def
        init_state_def Let_def)

lemma link_up_mtu:
  "m_mtu (link_up cfg tx) = (if cfg \<le> unat tx then of_nat cfg else tx)"
  by (simp add: link_up_def mtu_updated_def connected_def main_boot_def adv_start_def
        init_state_def Let_def)

lemma spec_fragments_61_150: "spec_fragments 61 150 = [(0, 61), (61, 61), (122, 28)]"
  by (simp add: spec_fragments_def spec_rest.simps)

section \<open>The generator writes the pattern\<close>

lemma pattern_Suc: "pattern cnt (Suc n) = pattern_byte cnt # pattern (cnt + 1) n"
proof -
  have "[0 ..< Suc n] = 0 # map Suc [0 ..< n]"
    by (simp add: upt_conv_Cons map_Suc_upt del: upt_Suc)
  then show ?thesis
    by (simp add: pattern_def comp_def add.assoc del: upt_Suc)
qed

lemma length_pattern: "length (pattern cnt n) = n"
  by (simp add: pattern_def)

lemma pattern_add: "pattern cnt (a + b) = pattern cnt a @ pattern (cnt + of_nat a) b"
proof (induction a arbitrary: cnt)
  case 0
  then show ?case by (simp add: pattern_def)
next
  case (Suc a)
  have "pattern cnt (Suc a + b) = pattern_byte cnt # pattern (cnt + 1) (a + b)"
    by (simp add: pattern_Suc)
  also have "\<dots> = pattern_byte cnt # pattern (cnt + 1) a @ pattern (cnt + 1 + of_nat a) b"
    by (simp add: Suc.IH)
  finally show ?case
    by (simp add: pattern_Suc ac_simps)
qed

lemma fill_buffer_pattern:
  "len \<le> length buf \<Longrightarrow> i \<le> len \<Longrightarrow>
   fill_buffer len i buf cnt =
     Inr (take i buf @ pattern cnt (len - i) @ drop len buf, cnt + of_nat (len - i))"
proof (induction len i buf cnt rule: fill_buffer.induct)
  case (1 len i buf cnt)
  show ?case
  proof (cases "i < len")
    case False
    then have "i = len" using "1.prems" by simp
    then show ?thesis
      by (subst fill_buffer.simps) (simp add: pattern_def)
  next
    case True
    let ?x = "pattern_byte cnt"
    have ib: "i < length buf" using True "1.prems" by simp
    have step: "fill_buffer len i buf cnt = fill_buffer len (Suc i) (buf[i := ?x]) (cnt + 1)"
      using True ib by (subst fill_buffer.simps) (simp add: pattern_byte_def Let_def)
    have ih: "fill_buffer len (Suc i) (buf[i := ?x]) (cnt + 1) =
        Inr (take (Suc i) (buf[i := ?x]) @ pattern (cnt + 1) (len - Suc i) @ drop len (buf[i := ?x]),
             cnt + 1 + of_nat (len - Suc i))"
      using "1.IH" [of "if cnt AND 1 \<noteq> 0 then 9 else 1"] True ib "1.prems"
      by (simp add: pattern_byte_def)
    have t: "take (Suc i) (buf[i := ?x]) = take i buf @ [?x]"
      using ib by (simp add: take_Suc_conv_app_nth)
    have d: "drop len (buf[i := ?x]) = drop len buf"
      using True by simp
    have p: "pattern cnt (len - i) = ?x # pattern (cnt + 1) (len - Suc i)"
      using True pattern_Suc [of cnt "len - Suc i"] by (simp add: Suc_diff_Suc)
    have c: "cnt + 1 + of_nat (len - Suc i) = cnt + of_nat (len - i)"
      using True by (simp add: Suc_diff_Suc [symmetric] add.assoc del: of_nat_diff)
    show ?thesis
      unfolding step ih t d p c by simp
  qed
qed

lemma fill_buffer_overflow:
  "i \<le> length buf \<Longrightarrow> length buf < len \<Longrightarrow> fill_buffer len i buf cnt = Inl Buffer_overflow"
proof (induction len i buf cnt rule: fill_buffer.induct)
  case (1 len i buf cnt)
  show ?case
  proof (cases "i < length buf")
    case True
    have "fill_buffer len i buf cnt =
            fill_buffer len (Suc i) (buf[i := pattern_byte cnt]) (cnt + 1)"
      using True "1.prems" by (subst fill_buffer.simps) (simp add: pattern_byte_def Let_def)
    also have "\<dots> = Inl Buffer_overflow"
      using "1.IH" [of "if cnt AND 1 \<noteq> 0 then 9 else 1"] True "1.prems"
      by (simp add: pattern_byte_def)
    finally show ?thesis .
  next
    case False
    then show ?thesis
      using "1.prems" by (subst fill_buffer.simps) (simp add: Let_def)
  qed
qed

lemma next_buffer_pattern:
  "len \<le> length buf \<Longrightarrow>
   next_buffer len buf cnt = Inr (pattern cnt len @ drop len buf, wrap_counter (cnt + of_nat len))"
  by (simp add: next_buffer_def fill_buffer_pattern)

lemma generated_pattern:
  "len \<le> length buf \<Longrightarrow>
   generated len buf cnt = Some (pattern cnt len, wrap_counter (cnt + of_nat len))"
  by (simp add: generated_def next_buffer_pattern length_pattern)

lemma two_calls_pattern:
  "a \<le> length buf \<Longrightarrow> b \<le> length buf \<Longrightarrow>
   two_calls a b buf cnt =
     Some (pattern cnt a @ pattern (wrap_counter (cnt + of_nat a)) b,
           wrap_counter (wrap_counter (cnt + of_nat a) + of_nat b))"
  by (simp add: two_calls_def next_buffer_pattern length_pattern)

lemma wrap_counter_const: "push_bit 1 (65535 :: 32 word) = 131070"
  by simp

lemma wrap_counter_le: "wrap_counter cnt \<le> 131070"
proof -
  have "cnt mod 131070 < 131070" by (rule word_mod_less_divisor) simp
  then show ?thesis
    by (auto simp: wrap_counter_def)
qed

lemma upt_20: "[0 ..< 20] = [0,1,2,3,4,5,6,7,8,9,10,11,12,13,14,15,16,17,18,19]"
  by (simp add: upt_rec)

lemma pattern_131060_20:
  "pattern 131060 20 = [250, 255, 251, 255, 252, 255, 253, 255, 254, 255, 255, 255, 0, 0, 1, 0, 2, 0, 3, 0]"
  by (simp add: pattern_def pattern_byte_def upt_20)

lemma pattern_131080_20:
  "pattern 131080 20 = [4, 0, 5, 0, 6, 0, 7, 0, 8, 0, 9, 0, 10, 0, 11, 0, 12, 0, 13, 0]"
  by (simp add: pattern_def pattern_byte_def upt_20)

lemma pattern_10_20:
  "pattern 10 20 = [5, 0, 6, 0, 7, 0, 8, 0, 9, 0, 10, 0, 11, 0, 12, 0, 13, 0, 14, 0]"
  by (simp add: pattern_def pattern_byte_def upt_20)

lemma wrap_131080: "wrap_counter 131080 = 10"
  by (simp add: wrap_counter_def)

lemma wrap_30: "wrap_counter 30 = 30"
  by (simp add: wrap_counter_def)

lemma wrap_131100: "wrap_counter 131100 = 30"
  by (simp add: wrap_counter_def)

text \<open>
  When the reduction of the counter does not fire after the first of two generations,
  the two produce the bytes of a single generation of the combined length.
\<close>

lemma continuity_without_wrap:
  assumes fit: "a + b \<le> length buf"
      and nowrap: "wrap_counter (cnt + of_nat a) = cnt + of_nat a"
  shows "map_option fst (two_calls a b buf cnt) = map_option fst (generated (a + b) buf cnt)"
proof -
  have "two_calls a b buf cnt =
      Some (pattern cnt a @ pattern (wrap_counter (cnt + of_nat a)) b,
            wrap_counter (wrap_counter (cnt + of_nat a) + of_nat b))"
    using fit by (intro two_calls_pattern) simp_all
  moreover have "generated (a + b) buf cnt =
      Some (pattern cnt (a + b), wrap_counter (cnt + of_nat (a + b)))"
    using fit by (rule generated_pattern)
  ultimately show ?thesis
    by (simp add: nowrap pattern_add)
qed

section \<open>MTU and the pump\<close>

text \<open>The conversions of \<open>m_mtu - 3\<close> to \<open>size_t\<close> and on to \<open>uint16_t\<close>.\<close>

lemma len_size_t:
  fixes mtu :: "16 word"
  assumes "3 \<le> unat mtu"
  shows "unat (word_of_int (uint mtu - int MTU_OVERHEAD) :: 32 word) = unat mtu - 3"
proof -
  have eq: "uint mtu - int MTU_OVERHEAD = int (unat mtu - 3)"
    using assms by (simp add: MTU_OVERHEAD_def of_nat_diff)
  have "unat mtu < 2 ^ 16" using unsigned_less [of mtu, where 'a = nat] by simp
  then have small: "unat mtu - 3 < 2 ^ 32" by simp
  have "unat (word_of_nat (unat mtu - 3) :: 32 word) = unat mtu - 3"
    using small by (simp only: unat_of_nat) simp
  then show ?thesis
    unfolding eq by (simp only: of_int_of_nat_eq)
qed

lemma len_uint16:
  fixes mtu :: "16 word"
  assumes m: "3 \<le> unat mtu"
  shows "(ucast (word_of_int (uint mtu - int MTU_OVERHEAD) :: 32 word) :: 16 word) = mtu - 3"
proof -
  let ?l = "word_of_int (uint mtu - int MTU_OVERHEAD) :: 32 word"
  have l: "unat ?l = unat mtu - 3" by (rule len_size_t [OF m])
  have "unat mtu < 2 ^ 16" using unsigned_less [of mtu, where 'a = nat] by simp
  then have small: "unat mtu - 3 < 2 ^ 16" by simp
  have "unat (ucast ?l :: 16 word) = take_bit 16 (unat ?l)"
    by (simp only: unsigned_ucast_eq) simp
  also have "\<dots> = unat mtu - 3"
    unfolding l using small by (simp only: take_bit_nat_eq_self)
  finally have lhs: "unat (ucast ?l :: 16 word) = unat mtu - 3" .
  have "(3 :: 16 word) \<le> mtu" using m by (simp add: word_le_nat_alt)
  then have rhs: "unat (mtu - 3) = unat mtu - 3" by (simp add: unat_sub)
  show ?thesis
    by (simp only: word_unat_eq_iff lhs rhs)
qed

lemma send_data_mtu: "send_data chan s len = Some (err, s') \<Longrightarrow> m_mtu s' = m_mtu s"
  by (auto simp: send_data_def Let_def split: option.splits if_splits prod.splits)

lemma notify_thread_iter_mtu:
  "notify_thread_iter chan s = Some (Inr s') \<Longrightarrow> m_mtu s' = m_mtu s"
  by (auto simp: notify_thread_iter_def Let_def
        split: if_splits sum.splits prod.splits option.splits dest!: send_data_mtu)

lemma mtu_updated_min: "unat (m_mtu (mtu_updated cfg s cn tx rx)) = min (unat tx) cfg"
proof (cases "cfg \<le> unat tx")
  case True
  then have "unat (word_of_nat cfg :: 16 word) = cfg" by (rule le_unat_uoi)
  then show ?thesis using True by (simp add: mtu_updated_def Let_def)
next
  case False
  then show ?thesis by (simp add: mtu_updated_def Let_def)
qed

lemma step_mtu_inv:
  assumes cfg: "23 \<le> cfg" and inv: "mtu_inv cfg s" and ok: "att_mtu_ok e"
      and st: "step cfg s e = Some s'"
  shows "mtu_inv cfg s'"
proof (cases e)
  case (Ev_connected cn hci_err info_err)
  then have "m_mtu s' = m_mtu s \<or> m_mtu s' = 23"
    using st by (auto simp: connected_def Let_def split: option.splits if_splits)
  then show ?thesis using inv cfg by (auto simp: mtu_inv_def)
next
  case (Ev_disconnected cn reason info_err)
  then have "m_mtu s' = m_mtu s"
    using st by (auto simp: disconnected_def adv_start_def Let_def split: option.splits)
  then show ?thesis using inv by (simp add: mtu_inv_def)
next
  case (Ev_mtu_updated cn tx rx)
  then have "unat (m_mtu s') = min (unat tx) cfg" and "23 \<le> unat tx"
    using st ok by (auto simp: mtu_updated_min)
  then show ?thesis using cfg by (simp add: mtu_inv_def)
next
  case (Ev_ccc v)
  then have "m_mtu s' = m_mtu s" using st by (auto simp: notif_ccc_cb_def)
  then show ?thesis using inv by (simp add: mtu_inv_def)
next
  case (Ev_write dptr len)
  then have "m_mtu s' = m_mtu s" using st by (auto simp: write_cmd_cb_def)
  then show ?thesis using inv by (simp add: mtu_inv_def)
next
  case (Ev_pump chan)
  then have "notify_thread_iter chan s = Some (Inr s')"
    using st by (auto split: option.splits sum.splits)
  then have "m_mtu s' = m_mtu s" by (rule notify_thread_iter_mtu)
  then show ?thesis using inv by (simp add: mtu_inv_def)
qed

lemma exec_mtu_inv:
  "23 \<le> cfg \<Longrightarrow> mtu_inv cfg s \<Longrightarrow> \<forall>e \<in> set evs. att_mtu_ok e \<Longrightarrow>
   exec cfg s evs = Some s' \<Longrightarrow> mtu_inv cfg s'"
proof (induction evs arbitrary: s)
  case Nil
  then show ?case by simp
next
  case (Cons e evs)
  from Cons.prems(4) obtain s1 where s1: "step cfg s e = Some s1" and rest: "exec cfg s1 evs = Some s'"
    by (auto split: option.splits)
  have "mtu_inv cfg s1"
    using step_mtu_inv [OF Cons.prems(1) Cons.prems(2) _ s1] Cons.prems(3) by simp
  then show ?case
    using Cons.IH [OF Cons.prems(1) _ _ rest] Cons.prems(3) by simp
qed

lemma main_boot_mtu: "m_mtu (main_boot cfg) = 23"
  by (simp add: main_boot_def adv_start_def init_state_def)

lemma exec_link_up:
  "exec cfg (main_boot cfg) [Ev_connected 1 0 0, Ev_mtu_updated 1 tx tx] = Some (link_up cfg tx)"
  by (simp add: link_up_def)

lemma link_up_buffer: "m_msg_buffer (link_up cfg tx) = replicate (cfg - 3) 0"
  by (simp add: link_up_def mtu_updated_def connected_def main_boot_def adv_start_def
        init_state_def Let_def MTU_OVERHEAD_def)

lemma link_up_counter: "m_msg_idx_cnt (link_up cfg tx) = 0"
  by (simp add: link_up_def mtu_updated_def connected_def main_boot_def adv_start_def
        init_state_def Let_def)

lemma notify_thread_iter_streaming:
  assumes str: "m_notif_enabled s" "m_notif_send s"
  shows "notify_thread_iter chan s =
      (case next_buffer (unat (word_of_int (uint (m_mtu s) - int MTU_OVERHEAD) :: 32 word))
              (m_msg_buffer s) (m_msg_idx_cnt s) of
         Inl e \<Rightarrow> Some (Inl e)
       | Inr (buf, cnt) \<Rightarrow>
           (case send_data chan (s\<lparr>m_msg_buffer := buf, m_msg_idx_cnt := cnt\<rparr>)
                   (ucast (word_of_int (uint (m_mtu s) - int MTU_OVERHEAD) :: 32 word)) of
              None \<Rightarrow> None
            | Some (err, s') \<Rightarrow> Some (Inr s')))"
  unfolding notify_thread_iter_def Let_def by (simp only: str simp_thms if_True)

text \<open>
  With an MTU of 2 the length \<open>m_mtu - 3\<close> is \<open>-1\<close>, which as a \<open>size_t\<close> is
  \<open>4294967295\<close>: the loop runs off the end of the buffer.
\<close>

lemma pump_underflow:
  assumes str: "m_notif_enabled s" "m_notif_send s"
      and mtu: "m_mtu s = 2"
      and cap: "length (m_msg_buffer s) < 4294967295"
  shows "notify_thread_iter chan s = Some (Inl Buffer_overflow)"
proof -
  have l: "unat (word_of_int (uint (2 :: 16 word) - int MTU_OVERHEAD) :: 32 word) = 4294967295"
    by (simp add: MTU_OVERHEAD_def unsigned_minus_1_eq_mask mask_eq_exp_minus_1)
  have fb: "fill_buffer 4294967295 0 (m_msg_buffer s) (m_msg_idx_cnt s) = Inl Buffer_overflow"
    by (rule fill_buffer_overflow) (simp_all add: cap)
  show ?thesis
    unfolding notify_thread_iter_streaming [OF str] mtu l next_buffer_def fb by simp
qed

text \<open>
  A streaming iteration with a connection active, an MTU of at least 3 and a buffer that
  holds \<open>MTU - 3\<close> bytes: the pattern is written and one notification is issued.
\<close>

lemma pump_iteration:
  assumes str: "m_notif_enabled s" "m_notif_send s"
      and conn: "default_conn s = Some c"
      and mtu: "3 \<le> unat (m_mtu s)"
      and cap: "unat (m_mtu s) - 3 \<le> length (m_msg_buffer s)"
  shows "notify_thread_iter chan s =
           Some (Inr (s\<lparr>m_msg_buffer := pattern (m_msg_idx_cnt s) (unat (m_mtu s) - 3)
                                        @ drop (unat (m_mtu s) - 3) (m_msg_buffer s),
                        m_msg_idx_cnt := wrap_counter (m_msg_idx_cnt s + of_nat (unat (m_mtu s) - 3)),
                        trace := trace s @ [Gatt_notify c 0 (unat (m_mtu s) - 3)]\<rparr>))"
proof -
  let ?n = "unat (m_mtu s) - 3"
  let ?l = "word_of_int (uint (m_mtu s) - int MTU_OVERHEAD) :: 32 word"
  let ?buf = "pattern (m_msg_idx_cnt s) ?n @ drop ?n (m_msg_buffer s)"
  let ?cnt = "wrap_counter (m_msg_idx_cnt s + of_nat ?n)"
  let ?s1 = "s\<lparr>m_msg_buffer := ?buf, m_msg_idx_cnt := ?cnt\<rparr>"
  have l: "unat ?l = ?n" by (rule len_size_t [OF mtu])
  have l16: "(ucast ?l :: 16 word) = m_mtu s - 3" by (rule len_uint16 [OF mtu])
  have nb: "next_buffer ?n (m_msg_buffer s) (m_msg_idx_cnt s) = Inr (?buf, ?cnt)"
    by (rule next_buffer_pattern [OF cap])
  have "(3 :: 16 word) \<le> m_mtu s" using mtu by (simp add: word_le_nat_alt)
  then have n16: "unat (m_mtu s - 3) = ?n" by (simp add: unat_sub)
  have eq: "uint (m_mtu s) - int MTU_OVERHEAD = int ?n"
    using mtu by (simp add: MTU_OVERHEAD_def of_nat_diff)
  have same: "m_mtu ?s1 = m_mtu s" by simp
  have "uint (m_mtu s - 3) = int ?n" by (simp only: uint_nat n16)
  then have single: "uint (m_mtu s - 3) \<le> uint (m_mtu ?s1) - int MTU_OVERHEAD"
    unfolding same eq by simp
  have sd: "send_data chan ?s1 (m_mtu s - 3) =
      Some (chan 0, ?s1\<lparr>trace := trace ?s1 @ [Gatt_notify c 0 (unat (m_mtu s - 3))]\<rparr>)"
    using single by (simp add: send_data_def conn Let_def)
  have "notify_thread_iter chan s = Some (Inr (?s1\<lparr>trace := trace ?s1 @ [Gatt_notify c 0 ?n]\<rparr>))"
    unfolding notify_thread_iter_streaming [OF str] l l16 nb by (simp add: sd n16)
  then show ?thesis by simp
qed

text \<open>
  The buffer keeps its capacity, so every state reached from boot has the \<open>cfg - 3\<close>
  bytes of the declaration.
\<close>

lemma send_data_buffer:
  "send_data chan s len = Some (err, s') \<Longrightarrow> m_msg_buffer s' = m_msg_buffer s"
  by (auto simp: send_data_def Let_def split: option.splits if_splits prod.splits)

lemma fill_buffer_length:
  "fill_buffer len i buf cnt = Inr (buf', cnt') \<Longrightarrow> length buf' = length buf"
proof (induction len i buf cnt rule: fill_buffer.induct)
  case (1 len i buf cnt)
  show ?case
  proof (cases "i < len")
    case False
    then show ?thesis
      using "1.prems" by (subst (asm) fill_buffer.simps) simp
  next
    case True
    show ?thesis
    proof (cases "i < length buf")
      case False
      then show ?thesis
        using True "1.prems" by (subst (asm) fill_buffer.simps) (simp add: Let_def)
    next
      case inb: True
      have "fill_buffer len (Suc i) (buf[i := pattern_byte cnt]) (cnt + 1) = Inr (buf', cnt')"
        using True inb "1.prems"
        by (subst (asm) fill_buffer.simps) (simp add: pattern_byte_def Let_def)
      then have "length buf' = length (buf[i := pattern_byte cnt])"
        using "1.IH" [of "if cnt AND 1 \<noteq> 0 then 9 else 1"] True inb
        by (simp add: pattern_byte_def)
      then show ?thesis by simp
    qed
  qed
qed

lemma notify_thread_iter_buffer:
  assumes "notify_thread_iter chan s = Some (Inr s')"
  shows "length (m_msg_buffer s') = length (m_msg_buffer s)"
proof (cases "m_notif_enabled s \<and> m_notif_send s")
  case False
  then show ?thesis
    using assms by (auto simp: notify_thread_iter_def)
next
  case True
  then have str: "m_notif_enabled s" "m_notif_send s" by simp_all
  let ?l = "word_of_int (uint (m_mtu s) - int MTU_OVERHEAD) :: 32 word"
  from assms obtain buf cnt err where
    nb: "next_buffer (unat ?l) (m_msg_buffer s) (m_msg_idx_cnt s) = Inr (buf, cnt)" and
    sd: "send_data chan (s\<lparr>m_msg_buffer := buf, m_msg_idx_cnt := cnt\<rparr>) (ucast ?l) = Some (err, s')"
    unfolding notify_thread_iter_streaming [OF str]
    by (auto split: sum.splits prod.splits option.splits)
  from nb obtain c0 where "fill_buffer (unat ?l) 0 (m_msg_buffer s) (m_msg_idx_cnt s) = Inr (buf, c0)"
    by (auto simp: next_buffer_def split: sum.splits prod.splits)
  then have "length buf = length (m_msg_buffer s)" by (rule fill_buffer_length)
  moreover have "m_msg_buffer s' = buf" using send_data_buffer [OF sd] by simp
  ultimately show ?thesis by simp
qed

lemma step_buffer:
  assumes "step cfg s e = Some s'"
  shows "length (m_msg_buffer s') = length (m_msg_buffer s)"
proof (cases e)
  case (Ev_pump chan)
  then have "notify_thread_iter chan s = Some (Inr s')"
    using assms by (auto split: option.splits sum.splits)
  then show ?thesis by (rule notify_thread_iter_buffer)
qed (use assms in \<open>auto simp: connected_def disconnected_def adv_start_def mtu_updated_def
       notif_ccc_cb_def write_cmd_cb_def Let_def split: option.splits if_splits\<close>)

lemma exec_buffer:
  "exec cfg s evs = Some s' \<Longrightarrow> length (m_msg_buffer s') = length (m_msg_buffer s)"
proof (induction evs arbitrary: s)
  case Nil
  then show ?case by simp
next
  case (Cons e evs)
  from Cons.prems obtain s1 where s1: "step cfg s e = Some s1" and rest: "exec cfg s1 evs = Some s'"
    by (auto split: option.splits)
  show ?case
    using Cons.IH [OF rest] step_buffer [OF s1] by simp
qed

lemma main_boot_buffer: "length (m_msg_buffer (main_boot cfg)) = cfg - MTU_OVERHEAD"
  by (simp add: main_boot_def adv_start_def init_state_def)

text \<open>
  So on every run from boot whose MTU exchanges report at least 23, a streaming iteration
  with a connection active issues exactly one notification.
\<close>

lemma pump_iteration_on_runs:
  assumes cfg: "23 \<le> cfg"
      and ok: "\<forall>e \<in> set evs. att_mtu_ok e"
      and run: "exec cfg (main_boot cfg) evs = Some s"
      and str: "m_notif_enabled s" "m_notif_send s"
      and conn: "default_conn s = Some c"
  shows "notify_thread_iter chan s =
           Some (Inr (s\<lparr>m_msg_buffer := pattern (m_msg_idx_cnt s) (unat (m_mtu s) - 3)
                                        @ drop (unat (m_mtu s) - 3) (m_msg_buffer s),
                        m_msg_idx_cnt := wrap_counter (m_msg_idx_cnt s + of_nat (unat (m_mtu s) - 3)),
                        trace := trace s @ [Gatt_notify c 0 (unat (m_mtu s) - 3)]\<rparr>))"
proof -
  have "mtu_inv cfg (main_boot cfg)"
    using cfg by (simp add: mtu_inv_def main_boot_mtu)
  then have inv: "mtu_inv cfg s"
    using exec_mtu_inv [OF cfg _ ok run] by simp
  have len: "length (m_msg_buffer s) = cfg - 3"
    using exec_buffer [OF run] by (simp add: main_boot_buffer MTU_OVERHEAD_def)
  have m: "3 \<le> unat (m_mtu s)" and hi: "unat (m_mtu s) \<le> cfg"
    using inv by (simp_all add: mtu_inv_def)
  have "unat (m_mtu s) - 3 \<le> cfg - 3" using hi by simp
  then have fit: "unat (m_mtu s) - 3 \<le> length (m_msg_buffer s)"
    by (simp only: len)
  show ?thesis
    by (rule pump_iteration [OF str conn m fit])
qed

text \<open>
  \<open>disconnected\<close> does not compare its argument with \<open>default_conn\<close>: the disconnect
  event that the stack delivers for a rejected second connection releases the stored
  reference to the first one.
\<close>

lemma rejected_connection_disconnects:
  "default_conn (connected (link_up 247 64) 2 0 0) = Some 1
   \<and> default_conn (disconnected (connected (link_up 247 64) 2 0 0) 2 0x16 0) = None"
  by (simp add: disconnected_def connected_def adv_start_def link_up_conn Let_def)

section \<open>Claims\<close>

text \<open>
  Claim C3, as amended. With a connection active, an MTU of at least 23 and a channel that
  accepts every notification, \<open>send_data\<close> returns 0 after issuing exactly the
  notifications of \<open>spec_fragments (MTU - 3) L\<close>, in that order: there are
  \<open>max 1 (ceil (L / (MTU - 3)))\<close> of them (one, empty, when \<open>L = 0\<close>), none is longer
  than \<open>MTU - 3\<close>, their offsets increase strictly, their concatenation is the payload,
  and a payload of at most \<open>MTU - 3\<close> bytes goes out as the single view \<open>(0, L)\<close>.
\<close>
theorem send_data_fragments:
  assumes conn: "default_conn s = Some c"
      and mtu: "23 \<le> unat (m_mtu s)"
      and acc: "\<forall>k. chan k = 0"
      and data: "length data = unat len"
  shows "send_data chan s len =
           Some (0, s\<lparr>trace := trace s @
                        map (notify_of c) (spec_fragments (unat (m_mtu s) - 3) (unat len))\<rparr>)
         \<and> length (spec_fragments (unat (m_mtu s) - 3) (unat len)) =
             max 1 (ceil_div (unat len) (unat (m_mtu s) - 3))
         \<and> (\<forall>v \<in> set (spec_fragments (unat (m_mtu s) - 3) (unat len)). snd v \<le> unat (m_mtu s) - 3)
         \<and> sorted_wrt (<) (map fst (spec_fragments (unat (m_mtu s) - 3) (unat len)))
         \<and> concat (map (view_bytes data) (spec_fragments (unat (m_mtu s) - 3) (unat len))) = data
         \<and> (unat len \<le> unat (m_mtu s) - 3 \<longrightarrow>
              spec_fragments (unat (m_mtu s) - 3) (unat len) = [(0, unat len)])"
proof -
  let ?u = "unat (m_mtu s) - 3"
  let ?fs = "spec_fragments ?u (unat len)"
  have m3: "3 < unat (m_mtu s)" and u: "0 < ?u" using mtu by simp_all
  have "spec_emit chan c ?fs 0 0 (trace s) = (0, trace s @ map (notify_of c) ?fs)"
    by (rule spec_emit_accept) (simp add: acc)
  then have "send_data chan s len = Some (0, s\<lparr>trace := trace s @ map (notify_of c) ?fs\<rparr>)"
    by (simp add: send_data_refines [OF conn m3])
  moreover have "length ?fs = max 1 (ceil_div (unat len) ?u)"
    by (rule spec_fragments_length [OF u])
  moreover have "\<forall>v \<in> set ?fs. snd v \<le> ?u"
    using spec_fragments_sizes by blast
  moreover have "sorted_wrt (<) (map fst ?fs)"
    by (rule spec_fragments_ordered)
  moreover have "concat (map (view_bytes data) ?fs) = data"
    by (rule spec_fragments_concat [OF u data])
  moreover have "unat len \<le> ?u \<longrightarrow> ?fs = [(0, unat len)]"
    by (simp add: spec_fragments_def)
  ultimately show ?thesis by blast
qed

text \<open>
  Witness for C3: MTU 64 and a payload of 150 bytes give the fragment sizes 61, 61, 28.
\<close>
theorem send_data_fragments_witness:
  "send_data accept_all (link_up 247 64) 150 =
     Some (0, (link_up 247 64)\<lparr>trace := trace (link_up 247 64) @
                [Gatt_notify 1 0 61, Gatt_notify 1 61 61, Gatt_notify 1 122 28]\<rparr>)
   \<and> length (spec_fragments 61 150) = 3
   \<and> concat (map (view_bytes [0 ..< 150]) (spec_fragments 61 150)) = [0 ..< 150]"
proof -
  have mtu: "m_mtu (link_up 247 64) = 64" by (simp add: link_up_mtu)
  have h2: "23 \<le> unat (m_mtu (link_up 247 64))" by (simp add: mtu)
  have h3: "\<forall>k. accept_all k = 0" by (simp add: accept_all_def)
  have h4: "length [0 ..< 150] = unat (150 :: 16 word)" by simp
  show ?thesis
    using send_data_fragments [OF link_up_conn h2 h3 h4]
    by (simp add: mtu spec_fragments_61_150 notify_of_def ceil_div_def)
qed

text \<open>
  Counterexample to C3 as stated: for an empty payload (\<open>L = 0\<close>, MTU 64) one notification
  is issued, while \<open>ceil (0 / 61)\<close> is 0.
\<close>
theorem send_data_empty_counterexample:
  "map_option fst (send_data accept_all (link_up 247 64) 0) = Some 0
   \<and> map_option (trace \<circ> snd) (send_data accept_all (link_up 247 64) 0) =
       Some (trace (link_up 247 64) @ [Gatt_notify 1 0 0])
   \<and> length [Gatt_notify 1 0 0] \<noteq> ceil_div 0 (64 - 3)"
  by (simp add: send_data_def link_up_conn link_up_mtu accept_all_def
        MTU_OVERHEAD_def ceil_div_def)

text \<open>
  Claim C8. When the channel accepts the fragments before the \<open>k\<close>-th and refuses the
  \<open>k\<close>-th, \<open>send_data\<close> returns the code of that refusal unchanged, and the
  notifications it issued are exactly the fragments up to and including the \<open>k\<close>-th:
  nothing after it is sent and nothing is sent twice.
\<close>
theorem send_data_aborts:
  assumes conn: "default_conn s = Some c"
      and mtu: "3 < unat (m_mtu s)"
      and k: "k < length (spec_fragments (unat (m_mtu s) - 3) (unat len))"
      and before: "\<forall>j < k. chan j = 0"
      and at: "chan k \<noteq> 0"
  shows "send_data chan s len =
           Some (chan k, s\<lparr>trace := trace s @
              map (notify_of c) (take (Suc k) (spec_fragments (unat (m_mtu s) - 3) (unat len)))\<rparr>)"
proof -
  let ?fs = "spec_fragments (unat (m_mtu s) - 3) (unat len)"
  have "spec_emit chan c ?fs 0 0 (trace s) =
          (chan (0 + k), trace s @ map (notify_of c) (take (Suc k) ?fs))"
    by (rule spec_emit_reject [OF k]) (simp_all add: before at)
  then show ?thesis
    by (simp add: send_data_refines [OF conn mtu])
qed

text \<open>
  Witness for C8: MTU 64, 150 bytes, the second fragment refused with \<open>-12\<close>; the third
  fragment is never sent.
\<close>
theorem send_data_aborts_witness:
  "send_data (reject_at 1 (- 12)) (link_up 247 64) 150 =
     Some (- 12, (link_up 247 64)\<lparr>trace := trace (link_up 247 64) @
                [Gatt_notify 1 0 61, Gatt_notify 1 61 61]\<rparr>)"
proof -
  have mtu: "m_mtu (link_up 247 64) = 64" by (simp add: link_up_mtu)
  have h2: "3 < unat (m_mtu (link_up 247 64))" by (simp add: mtu)
  have h3: "1 < length (spec_fragments (unat (m_mtu (link_up 247 64)) - 3) (unat (150 :: 16 word)))"
    by (simp add: mtu spec_fragments_61_150)
  have h4: "\<forall>j < 1. reject_at 1 (- 12) j = 0" by (simp add: reject_at_def)
  have v: "reject_at 1 (- 12) 1 = - 12" by (simp add: reject_at_def)
  have h5: "reject_at 1 (- 12) 1 \<noteq> 0" using v by simp
  show ?thesis
    using send_data_aborts [OF link_up_conn h2 h3 h4 h5] v
    by (simp add: mtu spec_fragments_61_150 notify_of_def)
qed

text \<open>
  Claim C7. For a control write of \<open>len\<close> bytes: the handler returns \<open>len\<close>; when there
  are at least two bytes and the first is \<open>0x01\<close>, the streaming flag becomes true exactly
  when the second byte is \<open>0x01\<close>, and nothing else changes; a shorter write, or another
  first byte, leaves the whole state unchanged.
\<close>
theorem write_cmd_cb_streaming:
  assumes len: "length dptr = unat len"
  shows "snd (write_cmd_cb s dptr len) = int (length dptr)
         \<and> (2 \<le> length dptr \<and> dptr ! 0 = 0x01 \<longrightarrow>
              fst (write_cmd_cb s dptr len) = s\<lparr>m_notif_send := (dptr ! 1 = 0x01)\<rparr>)
         \<and> (length dptr < 2 \<or> dptr ! 0 \<noteq> 0x01 \<longrightarrow> fst (write_cmd_cb s dptr len) = s)"
proof -
  have two: "(2 \<le> len) = (2 \<le> length dptr)"
    by (simp add: len word_le_nat_alt)
  show ?thesis
    by (auto simp: write_cmd_cb_def two len)
qed

text \<open>
  Witness for C7: the writes \<open>[01, 01]\<close>, \<open>[01, 00]\<close>, \<open>[02, 01]\<close> and \<open>[01]\<close>.
\<close>
theorem write_cmd_cb_streaming_witness:
  "m_notif_send (fst (write_cmd_cb (link_up 247 64) [0x01, 0x01] 2))
   \<and> \<not> m_notif_send (fst (write_cmd_cb ((link_up 247 64)\<lparr>m_notif_send := True\<rparr>) [0x01, 0x00] 2))
   \<and> fst (write_cmd_cb ((link_up 247 64)\<lparr>m_notif_send := True\<rparr>) [0x02, 0x01] 2) =
       (link_up 247 64)\<lparr>m_notif_send := True\<rparr>
   \<and> fst (write_cmd_cb ((link_up 247 64)\<lparr>m_notif_send := True\<rparr>) [0x01] 1) =
       (link_up 247 64)\<lparr>m_notif_send := True\<rparr>
   \<and> snd (write_cmd_cb (link_up 247 64) [0x01, 0x01] 2) = 2"
  using write_cmd_cb_streaming [of "[0x01, 0x01]" 2 "link_up 247 64"]
        write_cmd_cb_streaming [of "[0x01, 0x00]" 2 "(link_up 247 64)\<lparr>m_notif_send := True\<rparr>"]
        write_cmd_cb_streaming [of "[0x02, 0x01]" 2 "(link_up 247 64)\<lparr>m_notif_send := True\<rparr>"]
        write_cmd_cb_streaming [of "[0x01]" 1 "(link_up 247 64)\<lparr>m_notif_send := True\<rparr>"]
  by simp

text \<open>
  Claim C6. A successful connect event (\<open>hci_err = 0\<close>) that arrives while a connection
  is stored only asks the stack to disconnect the new connection, with the reason
  \<open>BT_HCI_ERR_REMOTE_USER_TERM_CONN\<close> (the code a host passes when it ends a link
  itself); the stored reference, the MTU and the flags keep their values.
\<close>
theorem connected_rejects_second:
  assumes active: "default_conn s = Some d"
  shows "connected s cn 0 info_err =
           s\<lparr>trace := trace s @ [Conn_disconnect cn BT_HCI_ERR_REMOTE_USER_TERM_CONN]\<rparr>
         \<and> default_conn (connected s cn 0 info_err) = Some d
         \<and> m_mtu (connected s cn 0 info_err) = m_mtu s
         \<and> m_notif_enabled (connected s cn 0 info_err) = m_notif_enabled s
         \<and> m_notif_send (connected s cn 0 info_err) = m_notif_send s
         \<and> test_ready (connected s cn 0 info_err) = test_ready s"
  by (simp add: connected_def active)

text \<open>
  Witness for C6: a connect event for connection 2 while connection 1 is active.
\<close>
theorem connected_rejects_second_witness:
  "connected (link_up 247 64) 2 0 0 =
     (link_up 247 64)\<lparr>trace := trace (link_up 247 64) @ [Conn_disconnect 2 0x13]\<rparr>
   \<and> default_conn (connected (link_up 247 64) 2 0 0) = Some 1
   \<and> m_mtu (connected (link_up 247 64) 2 0 0) = 64"
  using connected_rejects_second [OF link_up_conn [of 247 64], where cn = 2 and info_err = 0]
  by (simp add: link_up_mtu link_up_conn BT_HCI_ERR_REMOTE_USER_TERM_CONN_def)

text \<open>
  Claim C5, as amended. For every disconnect event, whatever the reason and whatever the
  information query returns, the handler clears \<open>test_ready\<close> and releases the stored
  reference; it restarts advertising, with the call made at boot, when the information
  query succeeds, and does nothing more when the query fails.
\<close>
theorem disconnected_effects:
  "test_ready (disconnected s cn reason info_err) = False
   \<and> default_conn (disconnected s cn reason info_err) = None
   \<and> trace (disconnected s cn reason info_err) =
       trace s @ (case default_conn s of Some d \<Rightarrow> [Conn_unref d] | None \<Rightarrow> [])
               @ (if info_err = 0 then trace (main_boot cfg) else [])"
  by (simp add: disconnected_def adv_start_def main_boot_def init_state_def Let_def
        split: option.split)

text \<open>
  Witness for C5: a disconnect of the active connection with a successful query.
\<close>
theorem disconnected_effects_witness:
  "trace (disconnected (link_up 247 64) 1 0x13 0) =
     trace (link_up 247 64) @
       [Conn_unref 1, Le_adv_start [BT_LE_ADV_OPT_CONNECTABLE, BT_LE_ADV_OPT_ONE_TIME]]
   \<and> default_conn (disconnected (link_up 247 64) 1 0x13 0) = None"
  using disconnected_effects [of "link_up 247 64" 1 "0x13" 0 247]
  by (simp add: link_up_conn main_boot_def adv_start_def init_state_def)

text \<open>
  Counterexample to C5 as stated: when the information query fails (\<open>-22\<close>), the trace
  ends with the release of the reference; advertising is not restarted.
\<close>
theorem disconnected_info_failure_counterexample:
  "trace (disconnected (link_up 247 64) 1 0x13 (- 22)) =
     [Le_adv_start [BT_LE_ADV_OPT_CONNECTABLE, BT_LE_ADV_OPT_ONE_TIME], Conn_ref 1, Conn_unref 1]"
  by (simp add: disconnected_def link_up_conn link_up_trace Let_def)

text \<open>
  Claim C1 says that generating \<open>a\<close> bytes and then \<open>b\<close> bytes gives the bytes of one
  generation of \<open>a + b\<close> bytes from the same counter. The code breaks this: from the
  counter 131060 (reached from boot after 6553 buffers of 20 bytes), two generations of
  20 bytes continue with 5 after the reduction of the counter to 10, where one generation
  of 40 bytes continues with 4.
\<close>
theorem two_calls_discontinuity:
  "two_calls 20 20 (replicate 40 0) 131060 =
     Some ([250, 255, 251, 255, 252, 255, 253, 255, 254, 255, 255, 255, 0, 0, 1, 0, 2, 0, 3, 0,
            5, 0, 6, 0, 7, 0, 8, 0, 9, 0, 10, 0, 11, 0, 12, 0, 13, 0, 14, 0], 30)
   \<and> generated 40 (replicate 40 0) 131060 =
     Some ([250, 255, 251, 255, 252, 255, 253, 255, 254, 255, 255, 255, 0, 0, 1, 0, 2, 0, 3, 0,
            4, 0, 5, 0, 6, 0, 7, 0, 8, 0, 9, 0, 10, 0, 11, 0, 12, 0, 13, 0], 30)
   \<and> map_option fst (two_calls 20 20 (replicate 40 0) 131060) \<noteq>
       map_option fst (generated 40 (replicate 40 0) 131060)"
proof -
  have two: "two_calls 20 20 (replicate 40 0) 131060 =
      Some (pattern 131060 20 @ pattern (wrap_counter (131060 + of_nat 20)) 20,
            wrap_counter (wrap_counter (131060 + of_nat 20) + of_nat 20))"
    by (rule two_calls_pattern) simp_all
  have "pattern 131060 (20 + 20) = pattern 131060 20 @ pattern (131060 + of_nat 20) 20"
    by (rule pattern_add)
  then have p40: "pattern 131060 40 = pattern 131060 20 @ pattern 131080 20"
    by simp
  have one: "generated 40 (replicate 40 0) 131060 =
      Some (pattern 131060 40, wrap_counter (131060 + of_nat 40))"
    by (rule generated_pattern) simp
  show ?thesis
    unfolding two one p40
    by (simp add: wrap_131080 wrap_30 wrap_131100 pattern_131060_20 pattern_131080_20 pattern_10_20)
qed

text \<open>
  Claim C2 says that the counter is reduced modulo 131072 after a buffer. The code
  reduces modulo \<open>UINT16_MAX << 1 = 131070\<close>: after a buffer of 20 bytes from 131060 the
  counter is 10, not \<open>131080 mod 131072 = 8\<close>, and a counter of 131071 becomes 1.
\<close>
theorem wrap_counter_modulus:
  "map_option snd (generated 20 (replicate 40 0) 131060) = Some 10
   \<and> (131060 + 20 :: 32 word) mod 131072 = 8
   \<and> wrap_counter 131071 = 1
   \<and> (131071 :: 32 word) mod 131072 = 131071"
proof -
  have "generated 20 (replicate 40 0) 131060 =
      Some (pattern 131060 20, wrap_counter (131060 + of_nat 20))"
    by (rule generated_pattern) simp
  then show ?thesis
    by (simp add: wrap_131080 wrap_counter_def)
qed

text \<open>
  Claim C4, as amended. When the configured maximum is at least 23 and every MTU exchange
  reports at least 23, every state reached from boot has \<open>23 \<le> MTU \<le> cfg\<close>. The
  exchange handler sets the MTU to \<open>min tx cfg\<close>, and a connect event that is stored and
  whose information query succeeds sets it to 23.
\<close>
theorem mtu_invariant:
  assumes cfg: "23 \<le> cfg"
      and ok: "\<forall>e \<in> set evs. att_mtu_ok e"
      and run: "exec cfg (main_boot cfg) evs = Some s"
  shows "mtu_inv cfg s
         \<and> unat (m_mtu (mtu_updated cfg s cn tx rx)) = min (unat tx) cfg
         \<and> (default_conn s = None \<longrightarrow> m_mtu (connected s cn 0 0) = 23)"
proof -
  have "mtu_inv cfg (main_boot cfg)"
    using cfg by (simp add: mtu_inv_def main_boot_mtu)
  then have "mtu_inv cfg s"
    using exec_mtu_inv [OF cfg _ ok run] by simp
  moreover have "default_conn s = None \<longrightarrow> m_mtu (connected s cn 0 0) = 23"
    by (simp add: connected_def Let_def)
  ultimately show ?thesis
    by (simp add: mtu_updated_min)
qed

text \<open>
  Witness for C4: an exchange of 64 gives 64, an exchange of 517 is clamped to 247.
\<close>
theorem mtu_invariant_witness:
  "mtu_inv 247 (link_up 247 64) \<and> m_mtu (link_up 247 64) = 64
   \<and> mtu_inv 247 (link_up 247 517) \<and> m_mtu (link_up 247 517) = 247"
proof -
  have c: "(23 :: nat) \<le> 247" by simp
  have ok1: "\<forall>e \<in> set [Ev_connected 1 0 0, Ev_mtu_updated 1 64 64]. att_mtu_ok e" by simp
  have ok2: "\<forall>e \<in> set [Ev_connected 1 0 0, Ev_mtu_updated 1 517 517]. att_mtu_ok e" by simp
  show ?thesis
    using mtu_invariant [OF c ok1 exec_link_up] mtu_invariant [OF c ok2 exec_link_up]
    by (simp add: link_up_mtu)
qed

text \<open>
  Counterexample to C4 as stated: an MTU exchange that reports 5 drives the MTU to 5.
\<close>
theorem mtu_below_minimum_counterexample:
  "exec 247 (main_boot 247) [Ev_connected 1 0 0, Ev_mtu_updated 1 5 5] = Some (link_up 247 5)
   \<and> m_mtu (link_up 247 5) = 5
   \<and> \<not> mtu_inv 247 (link_up 247 5)"
  using exec_link_up [of 247 5] by (simp add: link_up_mtu mtu_inv_def)

text \<open>
  Claim C9. Under the MTU invariant, with the buffer of \<open>cfg - 3\<close> bytes: the length
  \<open>m_mtu - 3\<close> is not negative and is the value the \<open>size_t\<close> holds, it does not
  exceed the capacity, and the generation finishes without a write outside the buffer.
\<close>
theorem pump_in_bounds:
  assumes inv: "mtu_inv cfg s"
      and cap: "length (m_msg_buffer s) = cfg - MTU_OVERHEAD"
  shows "uint (word_of_int (uint (m_mtu s) - int MTU_OVERHEAD) :: 32 word) =
           uint (m_mtu s) - int MTU_OVERHEAD
         \<and> 0 \<le> uint (m_mtu s) - int MTU_OVERHEAD
         \<and> unat (word_of_int (uint (m_mtu s) - int MTU_OVERHEAD) :: 32 word) \<le> length (m_msg_buffer s)
         \<and> next_buffer (unat (word_of_int (uint (m_mtu s) - int MTU_OVERHEAD) :: 32 word))
               (m_msg_buffer s) (m_msg_idx_cnt s) \<noteq> Inl Buffer_overflow
         \<and> (\<exists>buf cnt.
               next_buffer (unat (word_of_int (uint (m_mtu s) - int MTU_OVERHEAD) :: 32 word))
                 (m_msg_buffer s) (m_msg_idx_cnt s) = Inr (buf, cnt)
               \<and> length buf = length (m_msg_buffer s))"
proof -
  let ?l = "word_of_int (uint (m_mtu s) - int MTU_OVERHEAD) :: 32 word"
  have m: "3 \<le> unat (m_mtu s)" and hi: "unat (m_mtu s) \<le> cfg"
    using inv by (simp_all add: mtu_inv_def)
  have l: "unat ?l = unat (m_mtu s) - 3" by (rule len_size_t [OF m])
  have eq: "uint (m_mtu s) - int MTU_OVERHEAD = int (unat (m_mtu s) - 3)"
    using m by (simp add: MTU_OVERHEAD_def of_nat_diff)
  have a: "uint ?l = uint (m_mtu s) - int MTU_OVERHEAD"
    using l unfolding eq by (simp only: uint_nat)
  have b: "0 \<le> uint (m_mtu s) - int MTU_OVERHEAD"
    unfolding eq by simp
  have "unat (m_mtu s) - 3 \<le> cfg - 3" using hi by simp
  then have fit: "unat ?l \<le> length (m_msg_buffer s)"
    unfolding l unfolding cap MTU_OVERHEAD_def .
  have nb: "next_buffer (unat ?l) (m_msg_buffer s) (m_msg_idx_cnt s) =
      Inr (pattern (m_msg_idx_cnt s) (unat ?l) @ drop (unat ?l) (m_msg_buffer s),
           wrap_counter (m_msg_idx_cnt s + of_nat (unat ?l)))"
    by (rule next_buffer_pattern [OF fit])
  have len: "length (pattern (m_msg_idx_cnt s) (unat ?l) @ drop (unat ?l) (m_msg_buffer s)) =
      length (m_msg_buffer s)"
    using fit by (simp add: length_pattern)
  show ?thesis
    using a b fit len unfolding nb by simp
qed

text \<open>
  Witness for C9: MTU 64 in a buffer of 244 bytes.
\<close>
theorem pump_in_bounds_witness:
  "uint (word_of_int (uint (m_mtu (link_up 247 64)) - int MTU_OVERHEAD) :: 32 word) = 61
   \<and> next_buffer 61 (m_msg_buffer (link_up 247 64)) (m_msg_idx_cnt (link_up 247 64))
        \<noteq> Inl Buffer_overflow"
proof -
  have inv: "mtu_inv 247 (link_up 247 64)" by (simp add: mtu_inv_def link_up_mtu)
  have cap: "length (m_msg_buffer (link_up 247 64)) = 247 - MTU_OVERHEAD"
    by (simp add: link_up_buffer MTU_OVERHEAD_def)
  show ?thesis
    using pump_in_bounds [OF inv cap] by (simp add: link_up_mtu MTU_OVERHEAD_def)
qed

text \<open>
  Claim C10, as amended. In a streaming iteration with a connection active, under the MTU
  invariant \<open>23 \<le> MTU \<le> cfg\<close> and with the buffer of \<open>cfg - 3\<close> bytes, the pump writes
  \<open>MTU - 3\<close> pattern bytes, that length meets the single-notification test of
  \<open>send_data\<close>, and \<open>send_data\<close> issues exactly one notification, of the whole
  \<open>MTU - 3\<close> bytes at offset 0: the fragmenting loop is not entered. The MTU is read
  from the same state by both.
\<close>
theorem pump_single_notification:
  assumes str: "m_notif_enabled s" "m_notif_send s"
      and conn: "default_conn s = Some c"
      and inv: "mtu_inv cfg s"
      and cap: "length (m_msg_buffer s) = cfg - MTU_OVERHEAD"
  shows "notify_thread_iter chan s =
           Some (Inr (s\<lparr>m_msg_buffer := pattern (m_msg_idx_cnt s) (unat (m_mtu s) - 3)
                                        @ drop (unat (m_mtu s) - 3) (m_msg_buffer s),
                        m_msg_idx_cnt := wrap_counter (m_msg_idx_cnt s + of_nat (unat (m_mtu s) - 3)),
                        trace := trace s @ [Gatt_notify c 0 (unat (m_mtu s) - 3)]\<rparr>))
         \<and> uint (ucast (word_of_int (uint (m_mtu s) - int MTU_OVERHEAD) :: 32 word) :: 16 word)
             \<le> uint (m_mtu s) - int MTU_OVERHEAD"
proof -
  have m: "3 \<le> unat (m_mtu s)" and hi: "unat (m_mtu s) \<le> cfg"
    using inv by (simp_all add: mtu_inv_def)
  have "unat (m_mtu s) - 3 \<le> cfg - 3" using hi by simp
  then have fit: "unat (m_mtu s) - 3 \<le> length (m_msg_buffer s)"
    by (simp only: cap MTU_OVERHEAD_def)
  have one: "notify_thread_iter chan s =
           Some (Inr (s\<lparr>m_msg_buffer := pattern (m_msg_idx_cnt s) (unat (m_mtu s) - 3)
                                        @ drop (unat (m_mtu s) - 3) (m_msg_buffer s),
                        m_msg_idx_cnt := wrap_counter (m_msg_idx_cnt s + of_nat (unat (m_mtu s) - 3)),
                        trace := trace s @ [Gatt_notify c 0 (unat (m_mtu s) - 3)]\<rparr>))"
    by (rule pump_iteration [OF str conn m fit])
  have l16: "(ucast (word_of_int (uint (m_mtu s) - int MTU_OVERHEAD) :: 32 word) :: 16 word) =
      m_mtu s - 3"
    by (rule len_uint16 [OF m])
  have "(3 :: 16 word) \<le> m_mtu s" using m by (simp add: word_le_nat_alt)
  then have n16: "unat (m_mtu s - 3) = unat (m_mtu s) - 3" by (simp add: unat_sub)
  have eq: "uint (m_mtu s) - int MTU_OVERHEAD = int (unat (m_mtu s) - 3)"
    using m by (simp add: MTU_OVERHEAD_def of_nat_diff)
  have "uint (m_mtu s - 3) = int (unat (m_mtu s) - 3)" by (simp only: uint_nat n16)
  then have "uint (m_mtu s - 3) \<le> uint (m_mtu s) - int MTU_OVERHEAD"
    unfolding eq by simp
  then have single: "uint (ucast (word_of_int (uint (m_mtu s) - int MTU_OVERHEAD) :: 32 word) :: 16 word)
      \<le> uint (m_mtu s) - int MTU_OVERHEAD"
    unfolding l16 .
  show ?thesis
    using one single by (rule conjI)
qed

text \<open>
  Witness for C10: one iteration at MTU 64 emits one notification of 61 bytes.
\<close>
theorem pump_single_notification_witness:
  "map_option (map_sum id trace)
     (notify_thread_iter accept_all ((link_up 247 64)\<lparr>m_notif_enabled := True, m_notif_send := True\<rparr>)) =
   Some (Inr (trace (link_up 247 64) @ [Gatt_notify 1 0 61]))"
proof -
  let ?s = "(link_up 247 64)\<lparr>m_notif_enabled := True, m_notif_send := True\<rparr>"
  have h1: "m_notif_enabled ?s" and h2: "m_notif_send ?s" by simp_all
  have h3: "default_conn ?s = Some 1" by (simp add: link_up_conn)
  have h4: "mtu_inv 247 ?s" by (simp add: mtu_inv_def link_up_mtu)
  have h5: "length (m_msg_buffer ?s) = 247 - MTU_OVERHEAD"
    by (simp add: link_up_buffer MTU_OVERHEAD_def)
  show ?thesis
    using pump_single_notification [OF h1 h2 h3 h4 h5, of accept_all]
    by (simp add: link_up_mtu)
qed

text \<open>
  Counterexample to C10 as stated: after a connect, an MTU exchange that reports 2, a
  subscription and a write that enables streaming, a connection is active and the pump
  streams, but the iteration runs off the end of the buffer and issues no notification.
\<close>
theorem pump_below_minimum_counterexample:
  "exec 247 (main_boot 247) [Ev_connected 1 0 0, Ev_mtu_updated 1 2 2, Ev_ccc 1, Ev_write [1, 1] 2] =
     Some ((link_up 247 2)\<lparr>m_notif_enabled := True, m_notif_send := True\<rparr>)
   \<and> default_conn ((link_up 247 2)\<lparr>m_notif_enabled := True, m_notif_send := True\<rparr>) = Some 1
   \<and> notify_thread_iter accept_all ((link_up 247 2)\<lparr>m_notif_enabled := True, m_notif_send := True\<rparr>) =
       Some (Inl Buffer_overflow)"
proof -
  let ?s = "(link_up 247 2)\<lparr>m_notif_enabled := True, m_notif_send := True\<rparr>"
  have run: "exec 247 (main_boot 247) [Ev_connected 1 0 0, Ev_mtu_updated 1 2 2, Ev_ccc 1, Ev_write [1, 1] 2] =
      Some ?s"
    using exec_link_up [of 247 2]
    by (simp add: notif_ccc_cb_def write_cmd_cb_def BT_GATT_CCC_NOTIFY_def)
  have conn: "default_conn ?s = Some 1" by (simp add: link_up_conn)
  have over: "notify_thread_iter accept_all ?s = Some (Inl Buffer_overflow)"
    by (rule pump_underflow) (simp_all add: link_up_mtu link_up_buffer)
  show ?thesis
    using run conn over by simp
qed

end
